theory Spec2Isabelle
  imports Main "HOL-Library.Word"
begin

section \<open>Errors and outcomes\<close>

text \<open>
  The exceptions that \<^verbatim>\<open>pyfr/backends/cuda/types.py\<close> raises, or that Python raises on
  its behalf. A Python method that raises leaves the object in the state it had reached,
  so an outcome carries that state in both cases.
\<close>

datatype error = ValueError string | IndexError | ZeroDivisionError | AttributeError

datatype 'a outcome = Done 'a | Raised error 'a

section \<open>Work items\<close>

text \<open>
  Modelled from the spec: \<^verbatim>\<open>base.iscomputekernel\<close>, \<^verbatim>\<open>base.ismpikernel\<close> and the kernels'
  \<^verbatim>\<open>run\<close> methods live in \<^verbatim>\<open>pyfr.backends.base\<close>, which is not part of the sources.
  A work item is a discriminated value: a compute kernel, an MPI kernel, or anything else.
  Running an MPI kernel appends its request handles (\<open>kreqs\<close>) to the list it is given;
  running a compute kernel issues work on the two streams it is given.
\<close>

datatype kind = Compute | MPI | Other

record kernel =
  kkind :: kind
  kname :: nat
  kreqs :: "nat list"

type_synonym rtargs = "nat list"

definition iscomputekernel :: "kernel option \<Rightarrow> bool" where
  "iscomputekernel k = (case k of None \<Rightarrow> False | Some x \<Rightarrow> kkind x = Compute)"

definition ismpikernel :: "kernel option \<Rightarrow> bool" where
  "ismpikernel k = (case k of None \<Rightarrow> False | Some x \<Rightarrow> kkind x = MPI)"

section \<open>The execution queue\<close>

text \<open>
  What a queue does to the outside (the CUDA driver and MPI) is recorded, in order, in a
  world: the calls of \<^verbatim>\<open>item.run\<close>, of \<^verbatim>\<open>synchronize\<close> on either stream and of
  \<^verbatim>\<open>MPI.Prequest.Waitall\<close>, each tagged with the identity of the queue that made it.
\<close>

datatype event =
    RunCompute kernel rtargs
  | RunMPI kernel rtargs
  | SyncComp
  | SyncCopy
  | Waitall "nat list"

type_synonym world = "(nat \<times> event) list"

record queue =
  qid :: nat
  last :: "kernel option"
  stream_comp :: nat
  stream_copy :: nat
  mpireqs :: "nat list"
  items :: "(kernel \<times> rtargs) list"

text \<open>\<^verbatim>\<open>CUDAQueue.__init__\<close>; the identity and the two fresh streams are given.\<close>

definition CUDAQueue_init :: "nat \<Rightarrow> nat \<Rightarrow> nat \<Rightarrow> queue" where
  "CUDAQueue_init i sc sp =
     \<lparr>qid = i, last = None, stream_comp = sc, stream_copy = sp, mpireqs = [], items = []\<rparr>"

text \<open>\<^verbatim>\<open>__lshift__\<close> and \<^verbatim>\<open>__nonzero__\<close>.\<close>

definition lshift :: "queue \<Rightarrow> (kernel \<times> rtargs) list \<Rightarrow> queue" where
  "lshift q its = q\<lparr>items := items q @ its\<rparr>"

definition nonzero :: "queue \<Rightarrow> bool" where
  "nonzero q = (items q \<noteq> [])"

text \<open>\<^verbatim>\<open>_exec_item\<close>: dispatch on the kind, then record the item as the last one.\<close>

definition exec_item :: "kernel \<Rightarrow> rtargs \<Rightarrow> queue \<Rightarrow> world \<Rightarrow> (queue \<times> world) outcome" where
  "exec_item item rt q w =
     (if iscomputekernel (Some item) then
        Done (q\<lparr>last := Some item\<rparr>, w @ [(qid q, RunCompute item rt)])
      else if ismpikernel (Some item) then
        Done (q\<lparr>last := Some item, mpireqs := mpireqs q @ kreqs item\<rparr>,
              w @ [(qid q, RunMPI item rt)])
      else Raised (ValueError ''Non compute/MPI kernel in queue'') (q, w))"

text \<open>\<^verbatim>\<open>_wait\<close>.\<close>

definition wait :: "queue \<Rightarrow> world \<Rightarrow> queue \<times> world" where
  "wait q w =
     (if iscomputekernel (last q) then
        (q\<lparr>last := None\<rparr>, w @ [(qid q, SyncComp), (qid q, SyncCopy)])
      else if ismpikernel (last q) then
        (q\<lparr>last := None, mpireqs := []\<rparr>, w @ [(qid q, Waitall (mpireqs q))])
      else (q\<lparr>last := None\<rparr>, w))"

text \<open>\<^verbatim>\<open>_at_sequence_point\<close>.\<close>

definition at_sequence_point :: "queue \<Rightarrow> kernel \<Rightarrow> bool" where
  "at_sequence_point q item =
     (if (iscomputekernel (last q) \<and> \<not> iscomputekernel (Some item)) \<or>
         (ismpikernel (last q) \<and> \<not> ismpikernel (Some item))
      then True else False)"

text \<open>\<^verbatim>\<open>_exec_next\<close>; \<^verbatim>\<open>popleft\<close> on an empty deque raises \<^verbatim>\<open>IndexError\<close>.\<close>

definition exec_next :: "queue \<Rightarrow> world \<Rightarrow> (queue \<times> world) outcome" where
  "exec_next q w =
     (case items q of
        [] \<Rightarrow> Raised IndexError (q, w)
      | (item, rt) # rest \<Rightarrow>
          (let q1 = q\<lparr>items := rest\<rparr>;
               (q2, w2) = (if at_sequence_point q1 item then wait q1 w else (q1, w))
           in exec_item item rt q2 w2))"

text \<open>\<^verbatim>\<open>_exec_nowait\<close>: the loop runs while the deque is non-empty and its head is not at a
  sequence point.\<close>

function exec_nowait :: "queue \<Rightarrow> world \<Rightarrow> (queue \<times> world) outcome" where
  "exec_nowait q w =
     (case items q of
        [] \<Rightarrow> Done (q, w)
      | (item, rt) # rest \<Rightarrow>
          if at_sequence_point q item then Done (q, w)
          else (case exec_item item rt (q\<lparr>items := rest\<rparr>) w of
                  Raised e s \<Rightarrow> Raised e s
                | Done (q', w') \<Rightarrow> exec_nowait q' w'))"
  by pat_completeness auto
termination
  by (relation "measure (\<lambda>(q, w). length (items q))")
     (auto simp: exec_item_def split: if_splits)

text \<open>\<^verbatim>\<open>run\<close>: execute every pending item, then wait.\<close>

function run_loop :: "queue \<Rightarrow> world \<Rightarrow> (queue \<times> world) outcome" where
  "run_loop q w =
     (if items q \<noteq> [] then
        (case exec_next q w of
           Raised e s \<Rightarrow> Raised e s
         | Done (q', w') \<Rightarrow> run_loop q' w')
      else Done (q, w))"
  by pat_completeness auto
termination
  by (relation "measure (\<lambda>(q, w). length (items q))")
     (auto simp: exec_next_def exec_item_def wait_def Let_def
           split: list.splits if_splits prod.splits)

definition run :: "queue \<Rightarrow> world \<Rightarrow> (queue \<times> world) outcome" where
  "run q w =
     (case run_loop q w of
        Raised e s \<Rightarrow> Raised e s
      | Done (q', w') \<Rightarrow> Done (wait q' w'))"

text \<open>\<^verbatim>\<open>__mod__\<close>: run, enqueue, run.\<close>

definition qmod :: "queue \<Rightarrow> (kernel \<times> rtargs) list \<Rightarrow> world \<Rightarrow> (queue \<times> world) outcome" where
  "qmod q its w =
     (case run q w of
        Raised e s \<Rightarrow> Raised e s
      | Done (q', w') \<Rightarrow> run (lshift q' its) w')"

section \<open>Running several queues\<close>

text \<open>
  \<^verbatim>\<open>runall\<close> is a static method over a list of queues, taken here to be distinct objects.
  Its three loops over the queues are \<open>nowait_all\<close>, \<open>round_all\<close> inside the
  \<^verbatim>\<open>while any(queues)\<close> loop, and \<open>wait_all\<close>. An exception leaves the remaining queues
  untouched.
\<close>

fun nowait_all :: "queue list \<Rightarrow> world \<Rightarrow> (queue list \<times> world) outcome" where
  "nowait_all [] w = Done ([], w)"
| "nowait_all (q # qs) w =
     (case exec_nowait q w of
        Raised e (q', w') \<Rightarrow> Raised e (q' # qs, w')
      | Done (q', w') \<Rightarrow>
          (case nowait_all qs w' of
             Raised e (qs', w'') \<Rightarrow> Raised e (q' # qs', w'')
           | Done (qs', w'') \<Rightarrow> Done (q' # qs', w'')))"

text \<open>\<^verbatim>\<open>for q in it.ifilter(None, queues): q._exec_next(); q._exec_nowait()\<close>\<close>

fun round_all :: "queue list \<Rightarrow> world \<Rightarrow> (queue list \<times> world) outcome" where
  "round_all [] w = Done ([], w)"
| "round_all (q # qs) w =
     (if nonzero q then
        (case exec_next q w of
           Raised e (q1, w1) \<Rightarrow> Raised e (q1 # qs, w1)
         | Done (q1, w1) \<Rightarrow>
             (case exec_nowait q1 w1 of
                Raised e (q2, w2) \<Rightarrow> Raised e (q2 # qs, w2)
              | Done (q2, w2) \<Rightarrow>
                  (case round_all qs w2 of
                     Raised e (qs', w3) \<Rightarrow> Raised e (q2 # qs', w3)
                   | Done (qs', w3) \<Rightarrow> Done (q2 # qs', w3))))
      else
        (case round_all qs w of
           Raised e (qs', w3) \<Rightarrow> Raised e (q # qs', w3)
         | Done (qs', w3) \<Rightarrow> Done (q # qs', w3)))"

fun wait_all :: "queue list \<Rightarrow> world \<Rightarrow> queue list \<times> world" where
  "wait_all [] w = ([], w)"
| "wait_all (q # qs) w =
     (case wait q w of (q', w') \<Rightarrow>
        (case wait_all qs w' of (qs', w'') \<Rightarrow> (q' # qs', w'')))"

definition pending :: "queue list \<Rightarrow> nat" where
  "pending qs = sum_list (map (\<lambda>q. length (items q)) qs)"

lemma exec_item_items:
  "exec_item item rt q w = Done (q', w') \<Longrightarrow> items q' = items q"
  by (auto simp: exec_item_def split: if_splits)

lemma exec_next_items_less:
  "exec_next q w = Done (q', w') \<Longrightarrow> length (items q') < length (items q)"
  by (auto simp: exec_next_def exec_item_def wait_def Let_def
           split: list.splits if_splits prod.splits)

lemma exec_nowait_items_le:
  "exec_nowait q w = Done (q', w') \<Longrightarrow> length (items q') \<le> length (items q)"
proof (induction q w rule: exec_nowait.induct)
  case (1 q w)
  show ?case
  proof (cases "items q")
    case Nil
    with 1(2) show ?thesis by simp
  next
    case (Cons a rest)
    obtain item rt where a: "a = (item, rt)" by (cases a)
    show ?thesis
    proof (cases "at_sequence_point q item")
      case True
      with 1(2) Cons a show ?thesis by simp
    next
      case False
      with 1(2) Cons a obtain q1 w1 where
        e: "exec_item item rt (q\<lparr>items := rest\<rparr>) w = Done (q1, w1)" and
        n: "exec_nowait q1 w1 = Done (q', w')"
        by (auto split: outcome.splits)
      from e have "items q1 = rest"
        by (simp add: exec_item_items)
      moreover from 1(1)[OF Cons a[symmetric] False e refl n]
      have "length (items q') \<le> length (items q1)" .
      ultimately show ?thesis using Cons by simp
    qed
  qed
qed

lemma round_all_pending_le:
  "round_all qs w = Done (qs', w') \<Longrightarrow> pending qs' \<le> pending qs"
proof (induction qs arbitrary: w qs' w')
  case Nil
  then show ?case by (simp add: pending_def)
next
  case (Cons q qs)
  show ?case
  proof (cases "nonzero q")
    case True
    with Cons.prems obtain q1 w1 q2 w2 qs2 where
      a: "exec_next q w = Done (q1, w1)" and b: "exec_nowait q1 w1 = Done (q2, w2)" and
      c: "round_all qs w2 = Done (qs2, w')" and d: "qs' = q2 # qs2"
      by (auto split: outcome.splits prod.splits)
    from exec_next_items_less[OF a] exec_nowait_items_le[OF b] Cons.IH[OF c] d
    show ?thesis by (simp add: pending_def)
  next
    case False
    with Cons.prems obtain qs2 where
      c: "round_all qs w = Done (qs2, w')" and d: "qs' = q # qs2"
      by (auto split: outcome.splits prod.splits)
    from Cons.IH[OF c] d show ?thesis by (simp add: pending_def)
  qed
qed

lemma round_all_pending_less:
  "round_all qs w = Done (qs', w') \<Longrightarrow> list_ex nonzero qs \<Longrightarrow> pending qs' < pending qs"
proof (induction qs arbitrary: w qs' w')
  case Nil
  then show ?case by simp
next
  case (Cons q qs)
  show ?case
  proof (cases "nonzero q")
    case True
    with Cons.prems obtain q1 w1 q2 w2 qs2 where
      a: "exec_next q w = Done (q1, w1)" and b: "exec_nowait q1 w1 = Done (q2, w2)" and
      c: "round_all qs w2 = Done (qs2, w')" and d: "qs' = q2 # qs2"
      by (auto split: outcome.splits prod.splits)
    from exec_next_items_less[OF a] exec_nowait_items_le[OF b] round_all_pending_le[OF c] d
    show ?thesis by (simp add: pending_def)
  next
    case False
    with Cons.prems obtain qs2 where
      c: "round_all qs w = Done (qs2, w')" and d: "qs' = q # qs2"
      by (auto split: outcome.splits prod.splits)
    from False Cons.prems(2) have "list_ex nonzero qs" by simp
    from Cons.IH[OF c this] d show ?thesis by (simp add: pending_def)
  qed
qed

text \<open>\<^verbatim>\<open>while any(queues): ...\<close>; every round with a non-empty queue pops an item.\<close>

function runall_loop :: "queue list \<Rightarrow> world \<Rightarrow> (queue list \<times> world) outcome" where
  "runall_loop qs w =
     (if list_ex nonzero qs then
        (case round_all qs w of
           Raised e s \<Rightarrow> Raised e s
         | Done (qs', w') \<Rightarrow> runall_loop qs' w')
      else Done (qs, w))"
  by pat_completeness auto
termination
  by (relation "measure (\<lambda>(qs, w). pending qs)")
     (auto simp: round_all_pending_less)

text \<open>\<^verbatim>\<open>runall\<close>.\<close>

definition runall :: "queue list \<Rightarrow> world \<Rightarrow> (queue list \<times> world) outcome" where
  "runall qs w =
     (case nowait_all qs w of
        Raised e s \<Rightarrow> Raised e s
      | Done (qs1, w1) \<Rightarrow>
          (case runall_loop qs1 w1 of
             Raised e s \<Rightarrow> Raised e s
           | Done (qs2, w2) \<Rightarrow> Done (wait_all qs2 w2)))"

section \<open>Observations on a world\<close>

text \<open>
  The calls of \<^verbatim>\<open>item.run\<close> in a world, and the number of blocking waits in it: a wait for
  compute work is the pair \<open>SyncComp\<close>, \<open>SyncCopy\<close> and is counted at its first call; a wait
  for communication is one \<open>Waitall\<close>.
\<close>

fun is_run :: "event \<Rightarrow> bool" where
  "is_run (RunCompute k rt) = True"
| "is_run (RunMPI k rt) = True"
| "is_run e = False"

fun is_wait :: "event \<Rightarrow> bool" where
  "is_wait SyncComp = True"
| "is_wait (Waitall rs) = True"
| "is_wait e = False"

definition runs :: "world \<Rightarrow> world" where
  "runs w = filter (\<lambda>(i, e). is_run e) w"

definition waits :: "world \<Rightarrow> nat" where
  "waits w = length (filter (\<lambda>(i, e). is_wait e) w)"

definition run_event :: "kernel \<Rightarrow> rtargs \<Rightarrow> event" where
  "run_event k rt = (if kkind k = Compute then RunCompute k rt else RunMPI k rt)"

text \<open>The last executed item, when there is one, is a compute or an MPI kernel.\<close>

definition last_valid :: "queue \<Rightarrow> bool" where
  "last_valid q = (case last q of None \<Rightarrow> True | Some l \<Rightarrow> kkind l \<noteq> Other)"

text \<open>Sample kernels.\<close>

definition kC :: "nat \<Rightarrow> kernel" where
  "kC n = \<lparr>kkind = Compute, kname = n, kreqs = []\<rparr>"

definition kM :: "nat \<Rightarrow> nat list \<Rightarrow> kernel" where
  "kM n rs = \<lparr>kkind = MPI, kname = n, kreqs = rs\<rparr>"

definition kO :: "nat \<Rightarrow> kernel" where
  "kO n = \<lparr>kkind = Other, kname = n, kreqs = []\<rparr>"

declare exec_nowait.simps [simp del] run_loop.simps [simp del] runall_loop.simps [simp del]

lemmas queue_defs = run_def exec_next_def exec_item_def wait_def at_sequence_point_def
  iscomputekernel_def ismpikernel_def lshift_def CUDAQueue_init_def Let_def

lemma kind_not_Compute: "k \<noteq> Other \<Longrightarrow> k \<noteq> Compute \<longleftrightarrow> k = MPI"
  by (cases k) auto

lemma kind_not_MPI: "k \<noteq> Other \<Longrightarrow> k \<noteq> MPI \<longleftrightarrow> k = Compute"
  by (cases k) auto

section \<open>The sequence point rule\<close>




section \<open>Full runs of one queue\<close>

text \<open>
  Claim C3, as amended. A fresh queue given items of kinds Compute, Compute, MPI, MPI,
  Compute and then run executes them in that order and performs exactly three blocking
  waits: one before the first MPI item, one before the last compute item, and the wait
  that ends \<^verbatim>\<open>run\<close>.
\<close>

theorem run_CCMMC:
  assumes "kkind c1 = Compute" and "kkind c2 = Compute" and "kkind m1 = MPI" and "kkind m2 = MPI"
    and "kkind c3 = Compute"
  shows "\<exists>q' w'. run (lshift (CUDAQueue_init i sc sp)
                       [(c1, r1), (c2, r2), (m1, r3), (m2, r4), (c3, r5)]) [] = Done (q', w')
           \<and> w' = [(i, RunCompute c1 r1), (i, RunCompute c2 r2),
                   (i, SyncComp), (i, SyncCopy),
                   (i, RunMPI m1 r3), (i, RunMPI m2 r4),
                   (i, Waitall (kreqs m1 @ kreqs m2)),
                   (i, RunCompute c3 r5),
                   (i, SyncComp), (i, SyncCopy)]
           \<and> waits w' = 3
           \<and> runs w' = [(i, RunCompute c1 r1), (i, RunCompute c2 r2), (i, RunMPI m1 r3),
                        (i, RunMPI m2 r4), (i, RunCompute c3 r5)]"
  using assms by (simp add: queue_defs run_loop.simps waits_def runs_def)

theorem run_CCMMC_witness:
  "kkind (kC 1) = Compute \<and> kkind (kC 2) = Compute \<and> kkind (kM 3 [7]) = MPI
   \<and> kkind (kM 4 [8]) = MPI \<and> kkind (kC 5) = Compute
   \<and> (\<exists>q' w'. run (lshift (CUDAQueue_init 0 1 2)
            [(kC 1, []), (kC 2, []), (kM 3 [7], []), (kM 4 [8], []), (kC 5, [])]) [] = Done (q', w')
          \<and> waits w' = 3)"
  using run_CCMMC [of "kC 1" "kC 2" "kM 3 [7]" "kM 4 [8]" "kC 5" 0 1 2 "[]" "[]" "[]" "[]" "[]"]
  by (auto simp: kC_def kM_def)

text \<open>Claim C3 as stated fails: the run of such a queue does not perform exactly two waits.\<close>

theorem run_CCMMC_not_two_waits:
  "\<not> (\<exists>q' w'. run (lshift (CUDAQueue_init 0 1 2)
            [(kC 1, []), (kC 2, []), (kM 3 [7], []), (kM 4 [8], []), (kC 5, [])]) [] = Done (q', w')
          \<and> waits w' = 2)"
  by (simp add: queue_defs run_loop.simps waits_def kC_def kM_def)

text \<open>
  Claim C6. A fresh queue given three compute items and then run executes them back to
  back and performs exactly one blocking wait, the one that ends \<^verbatim>\<open>run\<close>.
\<close>

theorem run_CCC:
  assumes "kkind c1 = Compute" and "kkind c2 = Compute" and "kkind c3 = Compute"
  shows "\<exists>q' w'. run (lshift (CUDAQueue_init i sc sp) [(c1, r1), (c2, r2), (c3, r3)]) [] = Done (q', w')
           \<and> w' = [(i, RunCompute c1 r1), (i, RunCompute c2 r2), (i, RunCompute c3 r3),
                   (i, SyncComp), (i, SyncCopy)]
           \<and> waits w' = 1 \<and> last q' = None \<and> items q' = []"
  using assms by (simp add: queue_defs run_loop.simps waits_def)

theorem run_CCC_witness:
  "kkind (kC 1) = Compute \<and> kkind (kC 2) = Compute \<and> kkind (kC 3) = Compute \<and>
   (\<exists>q' w'. run (lshift (CUDAQueue_init 0 1 2) [(kC 1, []), (kC 2, []), (kC 3, [])]) [] = Done (q', w')
           \<and> w' = [(0, RunCompute (kC 1) []), (0, RunCompute (kC 2) []), (0, RunCompute (kC 3) []),
                   (0, SyncComp), (0, SyncCopy)]
           \<and> waits w' = 1 \<and> last q' = None \<and> items q' = [])"
  using run_CCC [of "kC 1" "kC 2" "kC 3" 0 1 2 "[]" "[]" "[]"] by (simp add: kC_def)

section \<open>Items that are neither compute nor MPI kernels\<close>

text \<open>
  Claim C9. An item that is neither a compute nor an MPI kernel makes \<^verbatim>\<open>_exec_item\<close> raise
  \<^verbatim>\<open>ValueError\<close> with the queue and the world as they were. When \<^verbatim>\<open>_exec_next\<close> dequeues
  such an item it raises the same error: no \<^verbatim>\<open>run\<close> call is added to the world, and
  \<open>last\<close> is either cleared by the wait or left as it was, so the item is not recorded.
\<close>

theorem exec_other_raises:
  assumes "kkind item = Other" and "items q = (item, rt) # rest"
  shows "exec_item item rt q w = Raised (ValueError ''Non compute/MPI kernel in queue'') (q, w)
       \<and> (\<exists>q' w'. exec_next q w = Raised (ValueError ''Non compute/MPI kernel in queue'') (q', w')
            \<and> runs w' = runs w \<and> (last q' = None \<or> last q' = last q)
            \<and> (last_valid q \<longrightarrow> last q' \<noteq> Some item) \<and> items q' = rest)"
  using assms
  by (auto simp: exec_item_def exec_next_def iscomputekernel_def ismpikernel_def wait_def
                 Let_def runs_def at_sequence_point_def last_valid_def
           split: prod.splits if_splits option.splits)

definition q_other :: queue where
  "q_other = \<lparr>qid = 0, last = Some (kC 1), stream_comp = 1, stream_copy = 2,
               mpireqs = [], items = [(kO 2, [])]\<rparr>"

theorem exec_other_raises_witness:
  "kkind (kO 2) = Other \<and> items q_other = (kO 2, []) # [] \<and> last_valid q_other
   \<and> exec_item (kO 2) [] q_other [] =
       Raised (ValueError ''Non compute/MPI kernel in queue'') (q_other, [])
   \<and> (\<exists>q' w'. exec_next q_other [] = Raised (ValueError ''Non compute/MPI kernel in queue'') (q', w')
         \<and> runs w' = [] \<and> last q' \<noteq> Some (kO 2) \<and> items q' = [])"
  using exec_other_raises [of "kO 2" q_other "[]" "[]" "[]"]
  by (auto simp: q_other_def kO_def kC_def last_valid_def runs_def)

section \<open>Queues run together and queues run alone\<close>

text \<open>Every pending item is a compute or an MPI kernel.\<close>

definition valid :: "queue \<Rightarrow> bool" where
  "valid q = list_all (\<lambda>(k, rt). kkind k \<noteq> Other) (items q)"

text \<open>Every event of a world carries the given queue identity.\<close>

definition tagged :: "nat \<Rightarrow> world \<Rightarrow> bool" where
  "tagged i w = list_all (\<lambda>(j, e). j = i) w"

text \<open>The events of a world made by the queue of the given identity.\<close>

definition proj :: "nat \<Rightarrow> world \<Rightarrow> world" where
  "proj i w = filter (\<lambda>(j, e). j = i) w"

text \<open>The state an operation leaves, whether it returned or raised.\<close>

fun final :: "'a outcome \<Rightarrow> 'a" where
  "final (Done s) = s"
| "final (Raised e s) = s"

text \<open>The sequence point rule in the words of the specification: an item needs a wait when \<open>last\<close> is defined and its kind differs from the item's.\<close>

definition needs_wait :: "kernel option \<Rightarrow> kernel \<Rightarrow> bool" where
  "needs_wait l k = (case l of None \<Rightarrow> False | Some x \<Rightarrow> kkind x \<noteq> kkind k)"

text \<open>The maximal prefix of the pending items that can be executed without any wait, by that rule.\<close>

fun nowait_prefix :: "kernel option \<Rightarrow> (kernel \<times> rtargs) list \<Rightarrow> (kernel \<times> rtargs) list" where
  "nowait_prefix l [] = []"
| "nowait_prefix l ((k, rt) # xs) =
     (if needs_wait l k then [] else (k, rt) # nowait_prefix (Some k) xs)"

text \<open>Nothing more can be executed without a wait: the queue is empty or its head is at a sequence point.\<close>

definition blocked :: "queue \<Rightarrow> bool" where
  "blocked q = (case items q of [] \<Rightarrow> True | (k, rt) # rest \<Rightarrow> at_sequence_point q k)"

text \<open>The \<^verbatim>\<open>run\<close> calls of a list of items, in order.\<close>

definition issue :: "nat \<Rightarrow> (kernel \<times> rtargs) list \<Rightarrow> world" where
  "issue i its = map (\<lambda>(k, rt). (i, run_event k rt)) its"

text \<open>Requests are outstanding only while the last executed item is an MPI kernel.\<close>

definition reqs_ok :: "queue \<Rightarrow> bool" where
  "reqs_ok q \<longleftrightarrow> (mpireqs q \<noteq> [] \<longrightarrow> ismpikernel (last q))"

text \<open>An operation on one queue returns, appends its events to whatever world it is given, and keeps the identity and the invariants of the queue.\<close>

definition steps_to ::
  "(queue \<Rightarrow> world \<Rightarrow> (queue \<times> world) outcome) \<Rightarrow> queue \<Rightarrow> queue \<Rightarrow> world \<Rightarrow> bool" where
  "steps_to f q q1 ev \<longleftrightarrow>
     (\<forall>w. f q w = Done (q1, w @ ev)) \<and> qid q1 = qid q \<and> tagged (qid q) ev \<and> valid q1
     \<and> (last_valid q \<longrightarrow> last_valid q1) \<and> (reqs_ok q \<longrightarrow> reqs_ok q1)"

text \<open>What one round of the \<^verbatim>\<open>while\<close> loop of \<^verbatim>\<open>runall\<close> does to one queue.\<close>

definition round1 :: "queue \<Rightarrow> world \<Rightarrow> (queue \<times> world) outcome" where
  "round1 q w =
     (if nonzero q then
        (case exec_next q w of
           Raised e s \<Rightarrow> Raised e s
         | Done (q1, w1) \<Rightarrow> exec_nowait q1 w1)
      else Done (q, w))"

text \<open>A loop over the queues that applies one operation to each in turn.\<close>

fun lift_all ::
  "(queue \<Rightarrow> world \<Rightarrow> (queue \<times> world) outcome) \<Rightarrow> queue list \<Rightarrow> world
     \<Rightarrow> (queue list \<times> world) outcome" where
  "lift_all f [] w = Done ([], w)"
| "lift_all f (q # qs) w =
     (case f q w of
        Raised e (q', w') \<Rightarrow> Raised e (q' # qs, w')
      | Done (q', w') \<Rightarrow>
          (case lift_all f qs w' of
             Raised e (qs', w'') \<Rightarrow> Raised e (q' # qs', w'')
           | Done (qs', w'') \<Rightarrow> Done (q' # qs', w'')))"

text \<open>The queue an operation leaves when started in the empty world.\<close>

definition after :: "(queue \<Rightarrow> world \<Rightarrow> (queue \<times> world) outcome) \<Rightarrow> queue \<Rightarrow> queue" where
  "after f q = fst (final (f q []))"

text \<open>The events an operation emits when started in the empty world.\<close>

definition emits :: "(queue \<Rightarrow> world \<Rightarrow> (queue \<times> world) outcome) \<Rightarrow> queue \<Rightarrow> world" where
  "emits f q = snd (final (f q []))"


lemma tagged_append [simp]: "tagged i (u @ v) \<longleftrightarrow> tagged i u \<and> tagged i v"
  by (simp add: tagged_def)

lemma tagged_Nil [simp]: "tagged i []"
  by (simp add: tagged_def)

lemma steps_to_final:
  "steps_to f q q1 ev \<Longrightarrow> final (f q w) = (q1, w @ ev)"
  by (simp add: steps_to_def)

lemma steps_to_refl:
  "valid q \<Longrightarrow> (\<And>w. f q w = Done (q, w)) \<Longrightarrow> steps_to f q q []"
  by (simp add: steps_to_def)

lemma exec_item_valid:
  assumes "kkind item \<noteq> Other"
  shows "exec_item item rt q w =
           Done (q\<lparr>last := Some item,
                   mpireqs := (if kkind item = MPI then mpireqs q @ kreqs item else mpireqs q)\<rparr>,
                 w @ [(qid q, run_event item rt)])"
  using assms
  by (cases "kkind item")
     (auto simp: exec_item_def iscomputekernel_def ismpikernel_def run_event_def)

lemma wait_local:
  "wait q w = (fst (wait q []), w @ snd (wait q []))"
  by (simp add: wait_def)

lemma wait_props:
  "qid (fst (wait q w)) = qid q" "items (fst (wait q w)) = items q"
  "last (fst (wait q w)) = None" "tagged (qid q) (snd (wait q []))"
  by (simp_all add: wait_def tagged_def)

lemma wait_reqs_ok: "reqs_ok q \<Longrightarrow> mpireqs (fst (wait q w)) = []"
  by (auto simp: wait_def reqs_ok_def ismpikernel_def iscomputekernel_def split: option.splits)

lemma at_sequence_point_items [simp]:
  "at_sequence_point (q\<lparr>items := xs\<rparr>) item = at_sequence_point q item"
  by (simp add: at_sequence_point_def)

lemma at_sequence_point_needs_wait:
  "last_valid q \<Longrightarrow> kkind item \<noteq> Other \<Longrightarrow>
     at_sequence_point q item \<longleftrightarrow> needs_wait (last q) item"
  by (cases "last q")
     (auto simp: at_sequence_point_def iscomputekernel_def ismpikernel_def last_valid_def
                 needs_wait_def kind_not_MPI kind_not_Compute)

lemma runs_append [simp]: "runs (u @ v) = runs u @ runs v"
  by (simp add: runs_def)

lemma runs_Nil [simp]: "runs [] = []"
  by (simp add: runs_def)

lemma runs_wait [simp]: "runs (snd (wait q [])) = []"
  by (simp add: runs_def wait_def)

lemma exec_next_nowait_step:
  assumes "items q = (item, rt) # rest" and "\<not> at_sequence_point q item"
  shows "exec_next q w = exec_item item rt (q\<lparr>items := rest\<rparr>) w"
  using assms by (simp add: exec_next_def)

lemma exec_next_steps:
  assumes "valid q" and "items q = (item, rt) # rest"
  shows "\<exists>q1 ev. steps_to exec_next q q1 ev \<and> items q1 = rest \<and> last q1 = Some item
           \<and> runs ev = [(qid q, run_event item rt)]
           \<and> (if at_sequence_point q item then is_wait (snd (hd ev))
               else ev = [(qid q, run_event item rt)])"
proof -
  from assms have k: "kkind item \<noteq> Other" by (simp add: valid_def)
  define q0 where "q0 = (if at_sequence_point q item
                         then fst (wait (q\<lparr>items := rest\<rparr>) []) else q\<lparr>items := rest\<rparr>)"
  define e0 where "e0 = (if at_sequence_point q item
                         then snd (wait (q\<lparr>items := rest\<rparr>) []) else [])"
  define q1 where "q1 = q0\<lparr>last := Some item,
       mpireqs := (if kkind item = MPI then mpireqs q0 @ kreqs item else mpireqs q0)\<rparr>"
  have q0: "qid q0 = qid q" "items q0 = rest" "tagged (qid q) e0"
    by (simp_all add: q0_def e0_def wait_def tagged_def)
  have n: "exec_next q w = Done (q1, w @ e0 @ [(qid q, run_event item rt)])" for w
  proof -
    have "(if at_sequence_point (q\<lparr>items := rest\<rparr>) item then wait (q\<lparr>items := rest\<rparr>) w
           else (q\<lparr>items := rest\<rparr>, w)) = (q0, w @ e0)"
      using wait_local[of "q\<lparr>items := rest\<rparr>" w] by (simp add: q0_def e0_def)
    then have "exec_next q w = exec_item item rt q0 (w @ e0)"
      using assms(2) by (simp add: exec_next_def Let_def)
    also have "\<dots> = Done (q1, (w @ e0) @ [(qid q0, run_event item rt)])"
      unfolding q1_def by (rule exec_item_valid[OF k])
    finally show ?thesis using q0 by simp
  qed
  have v: "valid q1" using assms q0 by (simp add: valid_def q1_def)
  have lv: "last_valid q1" using k by (simp add: last_valid_def q1_def)
  have r: "reqs_ok q \<Longrightarrow> reqs_ok q1"
    using k
    by (cases "kkind item")
       (auto simp: reqs_ok_def q1_def q0_def wait_def at_sequence_point_def ismpikernel_def
                   iscomputekernel_def split: option.splits if_splits)
  have "steps_to exec_next q q1 (e0 @ [(qid q, run_event item rt)])"
    using n q0 v lv r by (simp add: steps_to_def q1_def tagged_def)
  moreover have "items q1 = rest" "last q1 = Some item" using q0 by (simp_all add: q1_def)
  moreover have "runs (e0 @ [(qid q, run_event item rt)]) = [(qid q, run_event item rt)]"
    by (simp add: runs_def e0_def wait_def run_event_def)
  moreover have "if at_sequence_point q item
                 then is_wait (snd (hd (e0 @ [(qid q, run_event item rt)])))
                 else e0 @ [(qid q, run_event item rt)] = [(qid q, run_event item rt)]"
    by (auto simp: e0_def wait_def at_sequence_point_def)
  ultimately show ?thesis by blast
qed

lemma exec_nowait_steps:
  assumes "valid q"
  shows "\<exists>q1 ev. steps_to exec_nowait q q1 ev \<and> blocked q1
           \<and> (last_valid q \<longrightarrow> ev = issue (qid q) (nowait_prefix (last q) (items q)))"
  using assms
proof (induction "length (items q)" arbitrary: q rule: less_induct)
  case less
  show ?case
  proof (cases "items q")
    case Nil
    with less.prems have "steps_to exec_nowait q q []"
      by (simp add: steps_to_def exec_nowait.simps)
    with Nil show ?thesis
      by (intro exI[of _ q] exI[of _ "[]"]) (simp add: blocked_def issue_def)
  next
    case (Cons a rest)
    obtain item rt where a: "a = (item, rt)" by (cases a)
    from less.prems Cons a have k: "kkind item \<noteq> Other" by (simp add: valid_def)
    show ?thesis
    proof (cases "at_sequence_point q item")
      case True
      with Cons a less.prems have "steps_to exec_nowait q q []"
        by (simp add: steps_to_def exec_nowait.simps)
      moreover have "blocked q" using True Cons a by (simp add: blocked_def)
      moreover have "last_valid q \<longrightarrow> [] = issue (qid q) (nowait_prefix (last q) (items q))"
        using True Cons a k by (auto simp: at_sequence_point_needs_wait issue_def)
      ultimately show ?thesis by blast
    next
      case False
      from exec_next_steps[OF less.prems] Cons a False obtain q1 ev where
        s: "steps_to exec_next q q1 ev" and i: "items q1 = rest" and l1: "last q1 = Some item"
        and ev: "ev = [(qid q, run_event item rt)]"
        by (metis (full_types))
      then have v1: "valid q1" by (simp add: steps_to_def)
      have lv1: "last_valid q1" using l1 k by (simp add: last_valid_def)
      from less.hyps[of q1] v1 i Cons lv1 obtain q2 ev2 where s2: "steps_to exec_nowait q1 q2 ev2"
        and b2: "blocked q2" and ev2: "ev2 = issue (qid q1) (nowait_prefix (last q1) (items q1))"
        by auto
      have "exec_item item rt (q\<lparr>items := rest\<rparr>) w = Done (q1, w @ ev)" for w
        using Cons a False s exec_next_nowait_step[of q item rt rest w]
        by (simp add: steps_to_def)
      then have "exec_nowait q w = Done (q2, w @ ev @ ev2)" for w
        using Cons a False s2
        by (simp add: exec_nowait.simps[of q] steps_to_def)
      then have "steps_to exec_nowait q q2 (ev @ ev2)"
        using s s2 by (simp add: steps_to_def)
      moreover have "last_valid q \<longrightarrow> ev @ ev2 = issue (qid q) (nowait_prefix (last q) (items q))"
        using False Cons a k ev ev2 i l1 s
        by (auto simp: at_sequence_point_needs_wait issue_def steps_to_def)
      ultimately show ?thesis using b2 by blast
    qed
  qed
qed

lemma run_loop_steps:
  assumes "valid q"
  shows "\<exists>q1 ev. steps_to run_loop q q1 ev \<and> items q1 = []
           \<and> runs ev = issue (qid q) (items q)"
  using assms
proof (induction "length (items q)" arbitrary: q rule: less_induct)
  case less
  show ?case
  proof (cases "items q")
    case Nil
    with less.prems have "steps_to run_loop q q []"
      by (simp add: steps_to_def run_loop.simps)
    with Nil show ?thesis
      by (intro exI[of _ q] exI[of _ "[]"]) (simp add: issue_def)
  next
    case (Cons a rest)
    obtain item rt where a: "a = (item, rt)" by (cases a)
    from exec_next_steps[OF less.prems] Cons a obtain q1 ev where
      s: "steps_to exec_next q q1 ev" and i: "items q1 = rest"
      and r: "runs ev = [(qid q, run_event item rt)]"
      by blast
    then have v1: "valid q1" by (simp add: steps_to_def)
    from less.hyps[of q1] v1 i Cons obtain q2 ev2 where
      s2: "steps_to run_loop q1 q2 ev2" and i2: "items q2 = []"
      and r2: "runs ev2 = issue (qid q1) (items q1)"
      by auto
    have "run_loop q w = Done (q2, w @ ev @ ev2)" for w
      using Cons s s2 by (simp add: run_loop.simps[of q] steps_to_def)
    then have "steps_to run_loop q q2 (ev @ ev2)"
      using s s2 by (simp add: steps_to_def)
    moreover have "runs (ev @ ev2) = issue (qid q) (items q)"
      using r r2 i Cons a s by (simp add: issue_def steps_to_def)
    ultimately show ?thesis using i2 by blast
  qed
qed

lemma exec_nowait_run_loop:
  "exec_nowait q w = Done (q1, w1) \<Longrightarrow> run_loop q w = run_loop q1 w1"
proof (induction q w rule: exec_nowait.induct)
  case (1 q w)
  show ?case
  proof (cases "items q")
    case Nil
    with 1(2) have "q1 = q \<and> w1 = w" by (simp add: exec_nowait.simps[of q])
    then show ?thesis by simp
  next
    case (Cons a rest)
    obtain item rt where a: "a = (item, rt)" by (cases a)
    show ?thesis
    proof (cases "at_sequence_point q item")
      case True
      with 1(2) Cons a have "q1 = q \<and> w1 = w" by (simp add: exec_nowait.simps[of q])
      then show ?thesis by simp
    next
      case False
      with 1(2) Cons a obtain q' w' where
        e: "exec_item item rt (q\<lparr>items := rest\<rparr>) w = Done (q', w')" and
        n: "exec_nowait q' w' = Done (q1, w1)"
        by (auto simp: exec_nowait.simps[of q] split: outcome.splits)
      from 1(1)[OF Cons a[symmetric] False e refl n]
      have "run_loop q' w' = run_loop q1 w1" .
      moreover have "run_loop q w = run_loop q' w'"
        using Cons a False e exec_next_nowait_step[of q item rt rest w]
        by (simp add: run_loop.simps[of q])
      ultimately show ?thesis by simp
    qed
  qed
qed

lemma round1_run_loop:
  assumes "round1 q w = Done (q1, w1)"
  shows "run_loop q w = run_loop q1 w1"
proof (cases "nonzero q")
  case True
  with assms obtain q' w' where
    e: "exec_next q w = Done (q', w')" and n: "exec_nowait q' w' = Done (q1, w1)"
    by (auto simp: round1_def split: outcome.splits)
  from True e have "run_loop q w = run_loop q' w'"
    by (simp add: run_loop.simps[of q] nonzero_def)
  with exec_nowait_run_loop[OF n] show ?thesis by simp
next
  case False
  with assms show ?thesis by (simp add: round1_def)
qed

lemma round1_steps:
  assumes "valid q"
  shows "\<exists>q1 ev. steps_to round1 q q1 ev
           \<and> (if nonzero q then blocked q \<longrightarrow> ev \<noteq> [] \<and> is_wait (snd (hd ev)) else ev = [])"
proof (cases "items q")
  case Nil
  with assms have "steps_to round1 q q []"
    by (simp add: steps_to_def round1_def nonzero_def)
  with Nil show ?thesis
    by (intro exI[of _ q] exI[of _ "[]"]) (simp add: nonzero_def)
next
  case (Cons a rest)
  obtain item rt where a: "a = (item, rt)" by (cases a)
  from exec_next_steps[OF assms] Cons a obtain q1 ev where
    s: "steps_to exec_next q q1 ev" and i: "items q1 = rest"
    and r: "runs ev = [(qid q, run_event item rt)]"
    and h: "if at_sequence_point q item then is_wait (snd (hd ev))
            else ev = [(qid q, run_event item rt)]"
    by blast
  then have v1: "valid q1" by (simp add: steps_to_def)
  from r have ne: "ev \<noteq> []" by auto
  from exec_nowait_steps[OF v1] obtain q2 ev2 where s2: "steps_to exec_nowait q1 q2 ev2"
    by blast
  have "round1 q w = Done (q2, w @ ev @ ev2)" for w
    using Cons s s2 by (simp add: round1_def nonzero_def steps_to_def)
  then have "steps_to round1 q q2 (ev @ ev2)"
    using s s2 by (simp add: steps_to_def)
  moreover have "blocked q \<longrightarrow> ev @ ev2 \<noteq> [] \<and> is_wait (snd (hd (ev @ ev2)))"
    using h ne Cons a by (auto simp: blocked_def)
  ultimately show ?thesis using Cons by (auto simp: nonzero_def)
qed

lemma nowait_all_lift: "nowait_all qs w = lift_all exec_nowait qs w"
  by (induction qs arbitrary: w) (auto split: outcome.splits)

lemma round_all_lift: "round_all qs w = lift_all round1 qs w"
  by (induction qs arbitrary: w) (auto simp: round1_def split: outcome.splits)

lemma wait_all_map:
  "wait_all qs w = (map (\<lambda>q. fst (wait q [])) qs, w @ concat (map (\<lambda>q. snd (wait q [])) qs))"
proof (induction qs arbitrary: w)
  case Nil
  show ?case by simp
next
  case (Cons q qs)
  show ?case
    using wait_local[of q w] by (simp add: Cons.IH split: prod.splits)
qed

lemma steps_to_after:
  "steps_to f q q1 ev \<Longrightarrow> after f q = q1 \<and> emits f q = ev"
  by (simp add: steps_to_def after_def emits_def)

lemma steps_to_afterI:
  "\<exists>q1 ev. steps_to f q q1 ev \<Longrightarrow> steps_to f q (after f q) (emits f q)"
  using steps_to_after by blast

lemma lift_all_map:
  assumes "\<forall>q\<in>set qs. steps_to f q (after f q) (emits f q)"
  shows "lift_all f qs w = Done (map (after f) qs, w @ concat (map (emits f) qs))"
  using assms
proof (induction qs arbitrary: w)
  case Nil
  show ?case by simp
next
  case (Cons q qs)
  from Cons.prems have "f q w = Done (after f q, w @ emits f q)"
    by (simp add: steps_to_def)
  moreover from Cons have
    "lift_all f qs (w @ emits f q) =
       Done (map (after f) qs, (w @ emits f q) @ concat (map (emits f) qs))"
    by simp
  ultimately show ?case by simp
qed

lemma proj_Nil [simp]: "proj i [] = []"
  by (simp add: proj_def)

lemma proj_append [simp]: "proj i (u @ v) = proj i u @ proj i v"
  by (simp add: proj_def)

lemma proj_tagged: "tagged i w \<Longrightarrow> proj i w = w"
  by (induction w) (auto simp: proj_def tagged_def)

lemma proj_tagged_other: "tagged j w \<Longrightarrow> j \<noteq> i \<Longrightarrow> proj i w = []"
  by (induction w) (auto simp: proj_def tagged_def)

lemma proj_concat:
  assumes "distinct (map qid qs)" and "\<forall>q\<in>set qs. tagged (qid q) (h q)" and "q \<in> set qs"
  shows "proj (qid q) (concat (map h qs)) = h q"
  using assms
proof (induction qs)
  case Nil
  then show ?case by simp
next
  case (Cons a qs)
  show ?case
  proof (cases "q = a")
    case True
    have "proj (qid a) (concat (map h qs)) = []"
    proof -
      have "\<forall>x\<in>set qs. qid x \<noteq> qid a"
        using Cons.prems(1) by (auto simp: image_iff)
      then have "\<forall>x\<in>set qs. proj (qid a) (h x) = []"
        using Cons.prems(2) by (auto intro: proj_tagged_other)
      then show ?thesis by (induction qs) simp_all
    qed
    with True Cons.prems show ?thesis by (simp add: proj_tagged)
  next
    case False
    with Cons.prems have q: "q \<in> set qs" and ne: "qid a \<noteq> qid q" by auto
    from Cons.prems have "tagged (qid a) (h a)" by simp
    from proj_tagged_other[OF this ne] Cons.IH q Cons.prems show ?thesis by simp
  qed
qed

lemma run_loop_empty:
  "items q = [] \<Longrightarrow> run_loop q w = Done (q, w)"
  by (simp add: run_loop.simps)

lemma after_run_loop_round1:
  assumes "valid q"
  shows "after run_loop (after round1 q) = after run_loop q"
    and "emits run_loop q = emits round1 q @ emits run_loop (after round1 q)"
    and "qid (after round1 q) = qid q" and "valid (after round1 q)"
    and "tagged (qid q) (emits round1 q)"
proof -
  from round1_steps[OF assms] obtain q1 e1 where s1: "steps_to round1 q q1 e1" by blast
  then have v1: "valid q1" by (simp add: steps_to_def)
  from run_loop_steps[OF v1] obtain q2 e2 where s2: "steps_to run_loop q1 q2 e2" by blast
  from s1 have "round1 q [] = Done (q1, e1)" by (simp add: steps_to_def)
  from round1_run_loop[OF this] s2 have r: "run_loop q [] = Done (q2, e1 @ e2)"
    by (simp add: steps_to_def)
  from steps_to_after[OF s1] steps_to_after[OF s2] r
  show "after run_loop (after round1 q) = after run_loop q"
    and "emits run_loop q = emits round1 q @ emits run_loop (after round1 q)"
    by (simp_all add: after_def emits_def)
  from steps_to_after[OF s1] s1 show "qid (after round1 q) = qid q" and "valid (after round1 q)"
    and "tagged (qid q) (emits round1 q)"
    by (simp_all add: steps_to_def)
qed

lemma after_run_loop_nowait:
  assumes "valid q"
  shows "after run_loop (after exec_nowait q) = after run_loop q"
    and "emits run_loop q = emits exec_nowait q @ emits run_loop (after exec_nowait q)"
    and "qid (after exec_nowait q) = qid q" and "valid (after exec_nowait q)"
    and "tagged (qid q) (emits exec_nowait q)"
proof -
  from exec_nowait_steps[OF assms] obtain q1 e1 where s1: "steps_to exec_nowait q q1 e1" by blast
  then have v1: "valid q1" by (simp add: steps_to_def)
  from run_loop_steps[OF v1] obtain q2 e2 where s2: "steps_to run_loop q1 q2 e2" by blast
  from s1 have "exec_nowait q [] = Done (q1, e1)" by (simp add: steps_to_def)
  from exec_nowait_run_loop[OF this] s2 have r: "run_loop q [] = Done (q2, e1 @ e2)"
    by (simp add: steps_to_def)
  from steps_to_after[OF s1] steps_to_after[OF s2] r
  show "after run_loop (after exec_nowait q) = after run_loop q"
    and "emits run_loop q = emits exec_nowait q @ emits run_loop (after exec_nowait q)"
    by (simp_all add: after_def emits_def)
  from steps_to_after[OF s1] s1 show "qid (after exec_nowait q) = qid q"
    and "valid (after exec_nowait q)" and "tagged (qid q) (emits exec_nowait q)"
    by (simp_all add: steps_to_def)
qed

lemma runall_loop_char:
  assumes "\<forall>q\<in>set qs. valid q" and "distinct (map qid qs)"
  shows "\<exists>ext. runall_loop qs w = Done (map (after run_loop) qs, w @ ext)
           \<and> (\<forall>q\<in>set qs. proj (qid q) ext = emits run_loop q)"
  using assms
proof (induction qs w rule: runall_loop.induct)
  case (1 qs w)
  show ?case
  proof (cases "list_ex nonzero qs")
    case False
    then have e: "\<forall>q\<in>set qs. items q = []" by (auto simp: list_ex_iff nonzero_def)
    then have "\<forall>q\<in>set qs. after run_loop q = q \<and> emits run_loop q = []"
      by (simp add: after_def emits_def run_loop_empty)
    then have "map (after run_loop) qs = qs" and "\<forall>q\<in>set qs. proj (qid q) [] = emits run_loop q"
      by (simp_all add: map_idI proj_def)
    with False show ?thesis by (simp add: runall_loop.simps[of qs])
  next
    case True
    let ?qs1 = "map (after round1) qs"
    let ?e1 = "concat (map (emits round1) qs)"
    have st: "\<forall>q\<in>set qs. steps_to round1 q (after round1 q) (emits round1 q)"
      using 1(2) round1_steps by (blast intro: steps_to_afterI)
    have r: "round_all qs w = Done (?qs1, w @ ?e1)"
      unfolding round_all_lift by (rule lift_all_map[OF st])
    have v1: "\<forall>q\<in>set ?qs1. valid q"
      using 1(2) by (auto simp: after_run_loop_round1)
    have mq: "map qid ?qs1 = map qid qs"
      using 1(2) by (simp add: after_run_loop_round1)
    have d1: "distinct (map qid ?qs1)"
      unfolding mq by (rule 1(3))
    from 1(1)[OF True r refl v1 d1] obtain ext1 where
      l: "runall_loop ?qs1 (w @ ?e1) = Done (map (after run_loop) ?qs1, (w @ ?e1) @ ext1)" and
      p: "\<forall>q\<in>set ?qs1. proj (qid q) ext1 = emits run_loop q"
      by blast
    have m: "map (after run_loop) ?qs1 = map (after run_loop) qs"
      using 1(2) by (simp add: after_run_loop_round1)
    have "runall_loop qs w = Done (map (after run_loop) qs, w @ (?e1 @ ext1))"
      using True r l m by (simp add: runall_loop.simps[of qs])
    moreover have "proj (qid q) (?e1 @ ext1) = emits run_loop q" if q: "q \<in> set qs" for q
    proof -
      have "proj (qid q) ?e1 = emits round1 q"
        using 1(2,3) q by (intro proj_concat) (auto simp: after_run_loop_round1)
      moreover from p q have "proj (qid (after round1 q)) ext1 = emits run_loop (after round1 q)"
        by simp
      ultimately show ?thesis
        using 1(2) q after_run_loop_round1[of q] by simp
    qed
    ultimately show ?thesis by blast
  qed
qed

lemma round1_emits:
  assumes "valid q"
  shows "if nonzero q then blocked q \<longrightarrow> emits round1 q \<noteq> [] \<and> is_wait (snd (hd (emits round1 q)))
         else emits round1 q = []"
proof -
  from round1_steps[OF assms] obtain q1 ev where s: "steps_to round1 q q1 ev"
    and h: "if nonzero q then blocked q \<longrightarrow> ev \<noteq> [] \<and> is_wait (snd (hd ev)) else ev = []"
    by blast
  from steps_to_after[OF s] h show ?thesis by simp
qed

lemma nowait_emits:
  assumes "valid q"
  shows "blocked (after exec_nowait q)"
    and "last_valid q \<Longrightarrow> emits exec_nowait q = issue (qid q) (nowait_prefix (last q) (items q))"
proof -
  from exec_nowait_steps[OF assms] obtain q1 ev where s: "steps_to exec_nowait q q1 ev"
    and b: "blocked q1"
    and e: "last_valid q \<longrightarrow> ev = issue (qid q) (nowait_prefix (last q) (items q))"
    by blast
  from steps_to_after[OF s] b show "blocked (after exec_nowait q)" by simp
  from steps_to_after[OF s] e
  show "last_valid q \<Longrightarrow> emits exec_nowait q = issue (qid q) (nowait_prefix (last q) (items q))"
    by simp
qed

lemma run_loop_after:
  assumes "valid q"
  shows "run_loop q w = Done (after run_loop q, w @ emits run_loop q)"
    and "items (after run_loop q) = []" and "qid (after run_loop q) = qid q"
    and "runs (emits run_loop q) = issue (qid q) (items q)"
    and "tagged (qid q) (emits run_loop q)"
    and "reqs_ok q \<Longrightarrow> reqs_ok (after run_loop q)"
proof -
  from run_loop_steps[OF assms] obtain q1 ev where s: "steps_to run_loop q q1 ev"
    and i: "items q1 = []" and r: "runs ev = issue (qid q) (items q)"
    by blast
  from steps_to_after[OF s] s i r
  show "run_loop q w = Done (after run_loop q, w @ emits run_loop q)"
    and "items (after run_loop q) = []" and "qid (after run_loop q) = qid q"
    and "runs (emits run_loop q) = issue (qid q) (items q)"
    and "tagged (qid q) (emits run_loop q)"
    and "reqs_ok q \<Longrightarrow> reqs_ok (after run_loop q)"
    by (simp_all add: steps_to_def)
qed

lemma run_char:
  assumes "valid q"
  shows "run q [] = Done (fst (wait (after run_loop q) []),
                          emits run_loop q @ snd (wait (after run_loop q) []))"
  using run_loop_after(1)[OF assms, of "[]"] wait_local[of "after run_loop q" "emits run_loop q"]
  by (simp add: run_def)

lemma concat_round1_head:
  assumes "\<forall>q\<in>set qs. valid q \<and> blocked q" and "list_ex nonzero qs"
  shows "concat (map (emits round1) qs) \<noteq> []
         \<and> is_wait (snd (hd (concat (map (emits round1) qs))))"
  using assms
proof (induction qs)
  case Nil
  then show ?case by simp
next
  case (Cons q qs)
  from Cons.prems have v: "valid q" and b: "blocked q" by simp_all
  show ?case
  proof (cases "nonzero q")
    case True
    with round1_emits[OF v] b have "emits round1 q \<noteq> []" "is_wait (snd (hd (emits round1 q)))"
      by simp_all
    then show ?thesis by simp
  next
    case False
    with round1_emits[OF v] have "emits round1 q = []" by simp
    moreover from False Cons.prems have "list_ex nonzero qs" by simp
    ultimately show ?thesis using Cons by simp
  qed
qed

lemma concat_wait_head:
  "concat (map (\<lambda>q. snd (wait q [])) qs) = []
   \<or> is_wait (snd (hd (concat (map (\<lambda>q. snd (wait q [])) qs))))"
proof (induction qs)
  case Nil
  show ?case by simp
next
  case (Cons q qs)
  have "snd (wait q []) = [] \<or> (snd (wait q []) \<noteq> [] \<and> is_wait (snd (hd (snd (wait q [])))))"
    by (simp add: wait_def)
  with Cons show ?case by auto
qed

lemma runall_loop_head:
  assumes "\<forall>q\<in>set qs. valid q \<and> blocked q" and "distinct (map qid qs)"
    and "runall_loop qs w = Done (qs', w @ ext)"
  shows "ext = [] \<or> (ext \<noteq> [] \<and> is_wait (snd (hd ext)))"
proof (cases "list_ex nonzero qs")
  case False
  with assms(3) show ?thesis by (simp add: runall_loop.simps[of qs])
next
  case True
  let ?qs1 = "map (after round1) qs"
  let ?e1 = "concat (map (emits round1) qs)"
  have st: "\<forall>q\<in>set qs. steps_to round1 q (after round1 q) (emits round1 q)"
    using assms(1) round1_steps by (blast intro: steps_to_afterI)
  have r: "round_all qs w = Done (?qs1, w @ ?e1)"
    unfolding round_all_lift by (rule lift_all_map[OF st])
  have v1: "\<forall>q\<in>set ?qs1. valid q"
    using assms(1) by (auto simp: after_run_loop_round1)
  have mq: "map qid ?qs1 = map qid qs"
    using assms(1) by (simp add: after_run_loop_round1)
  have d1: "distinct (map qid ?qs1)"
    unfolding mq by (rule assms(2))
  from runall_loop_char[OF v1 d1, of "w @ ?e1"] obtain ext1 where
    "runall_loop ?qs1 (w @ ?e1) = Done (map (after run_loop) ?qs1, (w @ ?e1) @ ext1)"
    by blast
  with True r assms(3) have "ext = ?e1 @ ext1"
    by (simp add: runall_loop.simps[of qs])
  with concat_round1_head[OF assms(1) True] show ?thesis by simp
qed

text \<open>
  Claim C5. Let the queues have distinct identities, pending items that are all compute
  or MPI kernels, and states that satisfy the invariants of reachable queues. Then
  \<^verbatim>\<open>runall\<close> returns, and for every queue the final state and the events it made, in
  order, are exactly those of \<^verbatim>\<open>run\<close> on that queue alone: every item is executed once,
  in enqueue order, and the queue ends with no pending item, no last item and no
  outstanding request. Moreover the world of \<^verbatim>\<open>runall\<close> begins with the \<^verbatim>\<open>run\<close> calls of
  the maximal no-wait prefix of every queue, queue after queue, and whatever follows
  begins with a blocking wait.
\<close>

theorem runall_refines_run:
  assumes "distinct (map qid qs)" and "\<forall>q\<in>set qs. valid q \<and> last_valid q \<and> reqs_ok q"
  shows "\<exists>qs' w'. runall qs [] = Done (qs', w') \<and> length qs' = length qs
    \<and> (\<forall>k<length qs. run (qs ! k) [] = Done (qs' ! k, proj (qid (qs ! k)) w')
          \<and> runs (proj (qid (qs ! k)) w') = issue (qid (qs ! k)) (items (qs ! k))
          \<and> items (qs' ! k) = [] \<and> last (qs' ! k) = None \<and> mpireqs (qs' ! k) = [])
    \<and> (\<exists>rest. w' = concat (map (\<lambda>q. issue (qid q) (nowait_prefix (last q) (items q))) qs) @ rest
          \<and> (rest = [] \<or> is_wait (snd (hd rest))))"
proof -
  let ?N = "after exec_nowait" and ?R = "after run_loop"
  let ?W = "\<lambda>q. fst (wait q [])" and ?We = "\<lambda>q. snd (wait q [])"
  let ?qs1 = "map ?N qs"
  let ?e1 = "concat (map (emits exec_nowait) qs)"
  let ?qs2 = "map ?R ?qs1"
  let ?ew = "concat (map ?We ?qs2)"
  from assms(2) have v: "\<forall>q\<in>set qs. valid q" by blast
  have st: "\<forall>q\<in>set qs. steps_to exec_nowait q (?N q) (emits exec_nowait q)"
    using v exec_nowait_steps by (blast intro: steps_to_afterI)
  have n: "nowait_all qs [] = Done (?qs1, [] @ ?e1)"
    unfolding nowait_all_lift by (rule lift_all_map[OF st])
  have v1: "\<forall>q\<in>set ?qs1. valid q"
    using v by (auto simp: after_run_loop_nowait)
  have mq1: "map qid ?qs1 = map qid qs"
    using v by (simp add: after_run_loop_nowait)
  have d1: "distinct (map qid ?qs1)"
    unfolding mq1 by (rule assms(1))
  from runall_loop_char[OF v1 d1, of ?e1] obtain ext where
    l: "runall_loop ?qs1 ?e1 = Done (?qs2, ?e1 @ ext)" and
    p: "\<forall>q\<in>set ?qs1. proj (qid q) ext = emits run_loop q"
    by blast
  have b1: "\<forall>q\<in>set ?qs1. valid q \<and> blocked q"
    using v v1 by (auto simp: nowait_emits)
  from runall_loop_head[OF b1 d1 l] have hd_ext: "ext = [] \<or> (ext \<noteq> [] \<and> is_wait (snd (hd ext)))" .
  have mq2: "map qid ?qs2 = map qid qs"
    using v v1 by (simp add: after_run_loop_nowait run_loop_after)
  have d2: "distinct (map qid ?qs2)"
    unfolding mq2 by (rule assms(1))
  let ?w' = "?e1 @ ext @ ?ew"
  let ?qs' = "map ?W ?qs2"
  have ra: "runall qs [] = Done (?qs', ?w')"
    using n l by (simp add: runall_def wait_all_map)
  have per: "run q [] = Done (?W (?R (?N q)), proj (qid q) ?w')
          \<and> runs (proj (qid q) ?w') = issue (qid q) (items q)
          \<and> items (?W (?R (?N q))) = [] \<and> last (?W (?R (?N q))) = None
          \<and> mpireqs (?W (?R (?N q))) = []" if q: "q \<in> set qs" for q
  proof -
    from q assms(2) have vq: "valid q" and rq: "reqs_ok q" by auto
    have vn: "valid (?N q)" and qn: "qid (?N q) = qid q"
      using vq by (simp_all add: after_run_loop_nowait)
    have rn: "reqs_ok (?N q)"
      using exec_nowait_steps[OF vq] rq steps_to_after by (auto simp: steps_to_def)
    have qr: "qid (?R (?N q)) = qid q"
      using vn qn by (simp add: run_loop_after)
    have p1: "proj (qid q) ?e1 = emits exec_nowait q"
      using assms(1) v q by (intro proj_concat) (auto simp: after_run_loop_nowait)
    have p2: "proj (qid q) ext = emits run_loop (?N q)"
      using p q qn by force
    have "proj (qid (?R (?N q))) ?ew = ?We (?R (?N q))"
      using d2 q by (intro proj_concat) (auto simp: wait_props)
    then have p3: "proj (qid q) ?ew = ?We (?R (?N q))"
      using qr by simp
    have RN: "?R (?N q) = ?R q" and em: "emits run_loop q = emits exec_nowait q @ emits run_loop (?N q)"
      using vq by (simp_all add: after_run_loop_nowait)
    have pw: "proj (qid q) ?w' = emits run_loop q @ ?We (?R q)"
      using p1 p2 p3 RN em by simp
    have "run q [] = Done (?W (?R (?N q)), proj (qid q) ?w')"
      using run_char[OF vq] pw RN by simp
    moreover have "runs (proj (qid q) ?w') = issue (qid q) (items q)"
      using pw vq by (simp add: run_loop_after)
    moreover have "items (?W (?R (?N q))) = []" "last (?W (?R (?N q))) = None"
      using vq RN by (simp_all add: wait_props run_loop_after)
    moreover have "mpireqs (?W (?R (?N q))) = []"
      using run_loop_after(6)[OF vn rn] by (rule wait_reqs_ok)
    ultimately show ?thesis by blast
  qed
  have e1: "?e1 = concat (map (\<lambda>q. issue (qid q) (nowait_prefix (last q) (items q))) qs)"
    using assms(2) by (auto intro!: arg_cong[where f = concat] simp: nowait_emits)
  have rest: "ext @ ?ew = [] \<or> is_wait (snd (hd (ext @ ?ew)))"
    using hd_ext concat_wait_head[of ?qs2] by auto
  have "length ?qs' = length qs" by simp
  moreover have "\<forall>k<length qs. run (qs ! k) [] = Done (?qs' ! k, proj (qid (qs ! k)) ?w')
          \<and> runs (proj (qid (qs ! k)) ?w') = issue (qid (qs ! k)) (items (qs ! k))
          \<and> items (?qs' ! k) = [] \<and> last (?qs' ! k) = None \<and> mpireqs (?qs' ! k) = []"
    using per by (simp del: proj_append)
  moreover have "\<exists>rest. ?w' = concat (map (\<lambda>q. issue (qid q) (nowait_prefix (last q) (items q))) qs) @ rest
          \<and> (rest = [] \<or> is_wait (snd (hd rest)))"
    using e1 rest by (intro exI[of _ "ext @ ?ew"]) simp
  ultimately show ?thesis using ra by blast
qed

text \<open>Two sample queues: compute work followed by a send, and two sends.\<close>

definition qA :: queue where
  "qA = lshift (CUDAQueue_init 0 1 2) [(kC 1, []), (kC 2, []), (kM 3 [5], [])]"

definition qB :: queue where
  "qB = lshift (CUDAQueue_init 1 3 4) [(kM 4 [7], []), (kM 5 [8], [])]"

lemmas sample_defs = qA_def qB_def kC_def kM_def kO_def lshift_def CUDAQueue_init_def

theorem runall_refines_run_witness:
  "distinct (map qid [qA, qB]) \<and> valid qA \<and> last_valid qA \<and> reqs_ok qA
   \<and> valid qB \<and> last_valid qB \<and> reqs_ok qB
   \<and> (\<exists>qs' w'. runall [qA, qB] [] = Done (qs', w')
         \<and> run qA [] = Done (qs' ! 0, proj 0 w') \<and> run qB [] = Done (qs' ! 1, proj 1 w')
         \<and> w' = [(0, RunCompute (kC 1) []), (0, RunCompute (kC 2) []),
                 (1, RunMPI (kM 4 [7]) []), (1, RunMPI (kM 5 [8]) []),
                 (0, SyncComp), (0, SyncCopy), (0, RunMPI (kM 3 [5]) []),
                 (0, Waitall [5]), (1, Waitall [7, 8])])"
proof -
  have d: "distinct (map qid [qA, qB])"
    by (simp add: sample_defs)
  have v: "\<forall>q\<in>set [qA, qB]. valid q \<and> last_valid q \<and> reqs_ok q"
    by (simp add: sample_defs valid_def last_valid_def reqs_ok_def)
  from runall_refines_run[OF d v] obtain qs' w' where
    r: "runall [qA, qB] [] = Done (qs', w')" and
    k: "\<forall>k<length [qA, qB]. run ([qA, qB] ! k) [] = Done (qs' ! k, proj (qid ([qA, qB] ! k)) w')"
    by blast
  from k[rule_format, of 0] have "run ([qA, qB] ! 0) [] = Done (qs' ! 0, proj (qid ([qA, qB] ! 0)) w')"
    by simp
  then have k0: "run qA [] = Done (qs' ! 0, proj 0 w')"
    by (simp add: sample_defs)
  from k[rule_format, of 1] have "run ([qA, qB] ! 1) [] = Done (qs' ! 1, proj (qid ([qA, qB] ! 1)) w')"
    by simp
  then have k1: "run qB [] = Done (qs' ! 1, proj 1 w')"
    by (simp add: sample_defs)
  have "\<exists>qs. runall [qA, qB] [] = Done (qs, [(0, RunCompute (kC 1) []), (0, RunCompute (kC 2) []),
                 (1, RunMPI (kM 4 [7]) []), (1, RunMPI (kM 5 [8]) []),
                 (0, SyncComp), (0, SyncCopy), (0, RunMPI (kM 3 [5]) []),
                 (0, Waitall [5]), (1, Waitall [7, 8])])"
    by (simp add: runall_def sample_defs exec_nowait.simps runall_loop.simps nonzero_def
                  exec_next_def exec_item_def wait_def at_sequence_point_def
                  iscomputekernel_def ismpikernel_def Let_def)
  with r have "w' = [(0, RunCompute (kC 1) []), (0, RunCompute (kC 2) []),
                 (1, RunMPI (kM 4 [7]) []), (1, RunMPI (kM 5 [8]) []),
                 (0, SyncComp), (0, SyncCopy), (0, RunMPI (kM 3 [5]) []),
                 (0, Waitall [5]), (1, Waitall [7, 8])]"
    by auto
  with d v r k0 k1 show ?thesis by auto
qed

section \<open>Reachable queue states\<close>

text \<open>The invariant of a queue: valid pending items, a valid last item, and requests
  outstanding only after an MPI kernel.\<close>

definition queue_inv :: "queue \<Rightarrow> bool" where
  "queue_inv q \<longleftrightarrow> valid q \<and> last_valid q \<and> reqs_ok q"

definition valid_items :: "(kernel \<times> rtargs) list \<Rightarrow> bool" where
  "valid_items its = list_all (\<lambda>(k, rt). kkind k \<noteq> Other) its"

text \<open>
  The queues reachable from a fresh one by enqueueing compute and MPI kernels, single
  steps, draining without wait, full runs, \<^verbatim>\<open>__mod__\<close> and \<^verbatim>\<open>runall\<close>, whether an operation
  returns or raises.
\<close>

inductive reachable :: "queue \<Rightarrow> bool" where
  fresh: "reachable (CUDAQueue_init i sc sp)"
| enqueue: "reachable q \<Longrightarrow> valid_items its \<Longrightarrow> reachable (lshift q its)"
| step: "reachable q \<Longrightarrow> reachable (fst (final (exec_next q w)))"
| drain: "reachable q \<Longrightarrow> reachable (fst (final (exec_nowait q w)))"
| full: "reachable q \<Longrightarrow> reachable (fst (final (run q w)))"
| modulo: "reachable q \<Longrightarrow> valid_items its \<Longrightarrow> reachable (fst (final (qmod q its w)))"
| together: "\<forall>q\<in>set qs. reachable q \<Longrightarrow> q' \<in> set (fst (final (runall qs w))) \<Longrightarrow> reachable q'"

lemma inv_init: "queue_inv (CUDAQueue_init i sc sp)"
  by (simp add: queue_inv_def valid_def last_valid_def reqs_ok_def CUDAQueue_init_def)

lemma inv_lshift: "queue_inv q \<Longrightarrow> valid_items its \<Longrightarrow> queue_inv (lshift q its)"
  by (simp add: queue_inv_def valid_def last_valid_def reqs_ok_def lshift_def valid_items_def)

lemma steps_to_inv:
  "steps_to f q q1 ev \<Longrightarrow> queue_inv q \<Longrightarrow> queue_inv (fst (final (f q w)))"
  by (simp add: steps_to_def queue_inv_def)

lemma inv_exec_next: "queue_inv q \<Longrightarrow> queue_inv (fst (final (exec_next q w)))"
proof (cases "items q")
  case Nil
  assume "queue_inv q"
  with Nil show ?thesis by (simp add: exec_next_def)
next
  case (Cons a rest)
  assume i: "queue_inv q"
  obtain item rt where a: "a = (item, rt)" by (cases a)
  from i have "valid q" by (simp add: queue_inv_def)
  from exec_next_steps[OF this] Cons a obtain q1 ev where "steps_to exec_next q q1 ev"
    by blast
  from steps_to_inv[OF this i] show ?thesis .
qed

lemma inv_exec_nowait: "queue_inv q \<Longrightarrow> queue_inv (fst (final (exec_nowait q w)))"
  using exec_nowait_steps[of q] steps_to_inv[of exec_nowait q] by (auto simp: queue_inv_def)

lemma inv_run_loop: "queue_inv q \<Longrightarrow> queue_inv (fst (final (run_loop q w)))"
  using run_loop_steps[of q] steps_to_inv[of run_loop q] by (auto simp: queue_inv_def)

lemma inv_wait: "queue_inv q \<Longrightarrow> queue_inv (fst (wait q w))"
  using wait_reqs_ok[of q w]
  by (simp add: queue_inv_def valid_def wait_props last_valid_def reqs_ok_def)

lemma inv_run: "queue_inv q \<Longrightarrow> queue_inv (fst (final (run q w)))"
proof -
  assume i: "queue_inv q"
  then have v: "valid q" by (simp add: queue_inv_def)
  from run_loop_after(1)[OF v, of w] have "fst (final (run q w)) = fst (wait (fst (final (run_loop q w))) (w @ emits run_loop q))"
    by (simp add: run_def)
  with inv_wait[OF inv_run_loop[OF i]] show ?thesis by simp
qed

lemma inv_qmod: "queue_inv q \<Longrightarrow> valid_items its \<Longrightarrow> queue_inv (fst (final (qmod q its w)))"
proof -
  assume i: "queue_inv q" and vi: "valid_items its"
  then have v: "valid q" by (simp add: queue_inv_def)
  from run_loop_after(1)[OF v, of w]
  have "run q w = Done (wait (after run_loop q) (w @ emits run_loop q))"
    by (simp add: run_def)
  then obtain q1 w1 where r: "run q w = Done (q1, w1)"
    by (cases "wait (after run_loop q) (w @ emits run_loop q)") auto
  with inv_run[OF i, of w] have "queue_inv q1" by simp
  from inv_run[OF inv_lshift[OF this vi], of w1] r show ?thesis by (simp add: qmod_def)
qed

lemma runall_loop_states:
  assumes "\<forall>q\<in>set qs. valid q"
  shows "\<exists>w'. runall_loop qs w = Done (map (after run_loop) qs, w')"
  using assms
proof (induction qs w rule: runall_loop.induct)
  case (1 qs w)
  show ?case
  proof (cases "list_ex nonzero qs")
    case False
    then have "\<forall>q\<in>set qs. items q = []" by (auto simp: list_ex_iff nonzero_def)
    then have "\<forall>q\<in>set qs. after run_loop q = q"
      by (simp add: after_def run_loop_empty)
    then have "map (after run_loop) qs = qs" by (simp add: map_idI)
    with False show ?thesis by (simp add: runall_loop.simps[of qs])
  next
    case True
    let ?qs1 = "map (after round1) qs"
    let ?e1 = "concat (map (emits round1) qs)"
    have st: "\<forall>q\<in>set qs. steps_to round1 q (after round1 q) (emits round1 q)"
      using 1(2) round1_steps by (blast intro: steps_to_afterI)
    have r: "round_all qs w = Done (?qs1, w @ ?e1)"
      unfolding round_all_lift by (rule lift_all_map[OF st])
    have v1: "\<forall>q\<in>set ?qs1. valid q"
      using 1(2) by (auto simp: after_run_loop_round1)
    from 1(1)[OF True r refl v1] obtain w' where
      l: "runall_loop ?qs1 (w @ ?e1) = Done (map (after run_loop) ?qs1, w')"
      by blast
    have m: "map (after run_loop) ?qs1 = map (after run_loop) qs"
      using 1(2) by (simp add: after_run_loop_round1)
    show ?thesis
      using True r l m by (simp add: runall_loop.simps[of qs])
  qed
qed

lemma inv_after:
  assumes "queue_inv q"
  shows "queue_inv (after exec_nowait q)" and "queue_inv (after run_loop q)"
  using assms inv_exec_nowait[of q "[]"] inv_run_loop[of q "[]"] by (simp_all add: after_def)

lemma inv_runall:
  assumes "\<forall>q\<in>set qs. queue_inv q" and "q' \<in> set (fst (final (runall qs w)))"
  shows "queue_inv q'"
proof -
  let ?qs1 = "map (after exec_nowait) qs"
  from assms(1) have v: "\<forall>q\<in>set qs. valid q" by (simp add: queue_inv_def)
  have st: "\<forall>q\<in>set qs. steps_to exec_nowait q (after exec_nowait q) (emits exec_nowait q)"
    using v exec_nowait_steps by (blast intro: steps_to_afterI)
  have n: "nowait_all qs w = Done (?qs1, w @ concat (map (emits exec_nowait) qs))"
    unfolding nowait_all_lift by (rule lift_all_map[OF st])
  have v1: "\<forall>q\<in>set ?qs1. valid q"
    using v by (auto simp: after_run_loop_nowait)
  from runall_loop_states[OF v1] obtain w2 where
    l: "runall_loop ?qs1 (w @ concat (map (emits exec_nowait) qs)) = Done (map (after run_loop) ?qs1, w2)"
    by blast
  from n l have "fst (final (runall qs w)) = map (\<lambda>q. fst (wait q [])) (map (after run_loop) ?qs1)"
    by (simp add: runall_def wait_all_map)
  with assms(2) obtain q where q: "q \<in> set qs"
    and q': "q' = fst (wait (after run_loop (after exec_nowait q)) [])"
    by auto
  from assms(1) q have "queue_inv q" by simp
  from inv_wait[OF inv_after(2)[OF inv_after(1)[OF this]]] q' show ?thesis by simp
qed

lemma reachable_inv: "reachable q \<Longrightarrow> queue_inv q"
proof (induction rule: reachable.induct)
  case (fresh i sc sp)
  show ?case by (rule inv_init)
next
  case (enqueue q its)
  then show ?case by (simp add: inv_lshift)
next
  case (step q w)
  then show ?case by (simp add: inv_exec_next)
next
  case (drain q w)
  then show ?case by (simp add: inv_exec_nowait)
next
  case (full q w)
  then show ?case by (simp add: inv_run)
next
  case (modulo q its w)
  then show ?case by (simp add: inv_qmod)
next
  case (together qs q' w)
  then show ?case using inv_runall[of qs q' w] by blast
qed

text \<open>
  Claim C10. In every reachable queue state the list of outstanding MPI requests is
  non-empty only if the last executed item is an MPI kernel. So when the last item is a
  compute kernel the list is empty, and the compute branch of \<^verbatim>\<open>_wait\<close>, which leaves the
  list as it is, drops no request.
\<close>

theorem requests_only_after_mpi:
  assumes "reachable q"
  shows "(mpireqs q \<noteq> [] \<longrightarrow> (\<exists>l. last q = Some l \<and> kkind l = MPI))
       \<and> (iscomputekernel (last q) \<longrightarrow> mpireqs q = [] \<and> mpireqs (fst (wait q w)) = mpireqs q)"
  using reachable_inv[OF assms]
  by (auto simp: queue_inv_def reqs_ok_def ismpikernel_def iscomputekernel_def wait_def
           split: option.splits)

definition q_sent :: queue where
  "q_sent = fst (final (exec_next (lshift (CUDAQueue_init 0 1 2) [(kM 1 [7], []), (kC 2, [])]) []))"

theorem requests_only_after_mpi_witness:
  "reachable q_sent \<and> mpireqs q_sent = [7] \<and> (\<exists>l. last q_sent = Some l \<and> kkind l = MPI)"
proof -
  have r: "reachable q_sent"
    unfolding q_sent_def
    by (intro reachable.step reachable.enqueue reachable.fresh) (simp add: valid_items_def kM_def kC_def)
  have m: "mpireqs q_sent = [7]"
    by (simp add: q_sent_def queue_defs kM_def kC_def)
  with requests_only_after_mpi[OF r] show ?thesis using r by simp
qed

end
